theory Spec2Isabelle
  imports Complex_Main "HOL-Library.Monad_Syntax"
begin

section \<open>Binary64 arithmetic as Python performs it\<close>

text \<open>
  The script \<^verbatim>\<open>surge_radar.py\<close> computes with Python \<^verbatim>\<open>int\<close> (unbounded) and
  \<^verbatim>\<open>float\<close> (IEEE 754 binary64, round to nearest, ties to even). A finite double is
  modelled by the rational number it denotes. \<open>rnd\<close> rounds a rational to 53 significant
  bits; the exponent range is checked separately by \<open>to_double\<close>. Subnormal results
  cannot occur in this program: every float is derived from integers by the operations
  below, and the nonzero magnitudes that arise stay far above \<open>2^-1022\<close>.
\<close>

text \<open>Number of binary digits of a positive integer.\<close>

function blen :: "int \<Rightarrow> int" where
  "blen n = (if n \<le> 0 then 0 else blen (n div 2) + 1)"
  by pat_completeness auto
termination
  by (relation "measure nat") auto

declare blen.simps [simp del]

text \<open>The binade of a positive rational: \<open>2 powi ilog2 x \<le> x < 2 powi (ilog2 x + 1)\<close>.\<close>

definition ilog2 :: "rat \<Rightarrow> int" where
  "ilog2 x = (let (p, q) = quotient_of x; k = blen p - blen q
              in if 2 powi k \<le> x then k else k - 1)"

text \<open>Round to the nearest integer, ties to the even one.\<close>

definition rne :: "rat \<Rightarrow> int" where
  "rne y = (let f = \<lfloor>y\<rfloor>; d = y - of_int f in
            if d < 1/2 then f else if 1/2 < d then f + 1
            else if even f then f else f + 1)"

text \<open>Round to 53 significant bits, ties to even.\<close>

definition rnd :: "rat \<Rightarrow> rat" where
  "rnd x = (if x = 0 then 0
            else let s = 2 powi (ilog2 \<bar>x\<bar> - 52) in of_int (rne (x / s)) * s)"

text \<open>The largest finite double, \<open>(2^53 - 1) * 2^971\<close> (\<^verbatim>\<open>sys.float_info.max\<close>).\<close>

definition DBL_MAX :: rat where
  "DBL_MAX = 179769313486231570814527423731704356798070567525844996598917476803157260780028538760589558632766878171540458953514382464234321326889464182768467546703537516986049910576551282076245490090389328944075868508455133942304583236903222948165808559332123348274797826204144723168738177180919299881250404026184124858368"

text \<open>
  The result of one float operation. \<open>None\<close> stands for \<^verbatim>\<open>OverflowError\<close>, the only
  exception the arithmetic of this script can raise. Python raises it at once when an
  \<^verbatim>\<open>int\<close> is too large to convert and when \<^verbatim>\<open>int / int\<close> is too large; an overflowing
  float product or sum is \<^verbatim>\<open>inf\<close> first, no later operation of the script turns it back
  into a finite value or into \<^verbatim>\<open>nan\<close>, and the \<^verbatim>\<open>int(...)\<close> that consumes it raises
  \<^verbatim>\<open>OverflowError\<close> before anything is rendered. The model raises at the operation.
\<close>

definition to_double :: "rat \<Rightarrow> rat option" where
  "to_double x = (let r = rnd x in if \<bar>r\<bar> \<le> DBL_MAX then Some r else None)"

definition int_to_float :: "int \<Rightarrow> rat option" where
  "int_to_float n = to_double (of_int n)"

definition float_mul :: "rat \<Rightarrow> rat \<Rightarrow> rat option" where
  "float_mul x y = to_double (x * y)"

definition float_add :: "rat \<Rightarrow> rat \<Rightarrow> rat option" where
  "float_add x y = to_double (x + y)"

text \<open>\<^verbatim>\<open>a / b\<close> on two ints is the correctly rounded quotient; \<open>b\<close> is a nonzero constant here.\<close>

definition int_truediv :: "int \<Rightarrow> int \<Rightarrow> rat option" where
  "int_truediv a b = to_double (of_int a / of_int b)"

text \<open>\<^verbatim>\<open>int(x)\<close> on a finite float truncates toward zero.\<close>

definition float_to_int :: "rat \<Rightarrow> int" where
  "float_to_int x = (if 0 \<le> x then \<lfloor>x\<rfloor> else \<lceil>x\<rceil>)"

text \<open>A decimal float literal denotes the double nearest to it.\<close>

definition float_literal :: "rat \<Rightarrow> rat" where
  "float_literal d = rnd d"

section \<open>The script\<close>

datatype venue = Stadium_Bounded | Fan_Zone_Unbounded

text \<open>The four branches of the banner chain, under the names the specification gives them.\<close>

datatype SeverityTier = Override | Critical | Warning | Normal

record ScenarioInput =
  attendance :: int
  temp :: int
  humidity :: int
  venue_type :: venue

text \<open>The ranges of the sidebar controls.\<close>

definition valid_input :: "ScenarioInput \<Rightarrow> bool" where
  "valid_input inp \<longleftrightarrow>
     10000 \<le> attendance inp \<and> attendance inp \<le> 150000 \<and>
     60 \<le> temp inp \<and> temp inp \<le> 120 \<and>
     10 \<le> humidity inp \<and> humidity inp \<le> 100"

definition BASELINE_ED_CAPACITY :: int where
  "BASELINE_ED_CAPACITY = 80"

definition CRITICAL_NEDOCS_THRESHOLD :: int where
  "CRITICAL_NEDOCS_THRESHOLD = 140"

definition base_ppr_per_10k :: rat where
  "base_ppr_per_10k = 15"

text \<open>\<^verbatim>\<open>1.0 + max(0, (temp - 85) * 0.05) + max(0, (humidity - 60) * 0.01)\<close>\<close>

definition heat_index_multiplier :: "int \<Rightarrow> int \<Rightarrow> rat option" where
  "heat_index_multiplier t h = do {
     tf \<leftarrow> int_to_float (t - 85);
     a \<leftarrow> float_mul tf (float_literal (5 / 100));
     s \<leftarrow> float_add 1 (max 0 a);
     hf \<leftarrow> int_to_float (h - 60);
     b \<leftarrow> float_mul hf (float_literal (1 / 100));
     float_add s (max 0 b)
   }"

definition venue_multiplier :: "venue \<Rightarrow> rat" where
  "venue_multiplier v = (if v = Fan_Zone_Unbounded then 2 else 1)"

text \<open>\<^verbatim>\<open>int((attendance / 10000) * base_ppr_per_10k * heat_index_multiplier * venue_multiplier)\<close>\<close>

definition total_patients :: "int \<Rightarrow> rat \<Rightarrow> rat \<Rightarrow> int option" where
  "total_patients att heat vm = do {
     q \<leftarrow> int_truediv att 10000;
     p1 \<leftarrow> float_mul q base_ppr_per_10k;
     p2 \<leftarrow> float_mul p1 heat;
     p3 \<leftarrow> float_mul p2 vm;
     Some (float_to_int p3)
   }"

text \<open>\<^verbatim>\<open>int(total_patients * 0.65)\<close> and \<^verbatim>\<open>int(total_patients * 0.15)\<close>\<close>

definition onsite_treat :: "int \<Rightarrow> int option" where
  "onsite_treat tp = do {
     n \<leftarrow> int_to_float tp;
     x \<leftarrow> float_mul n (float_literal (65 / 100));
     Some (float_to_int x)
   }"

definition acs_telehealth :: "int \<Rightarrow> int option" where
  "acs_telehealth tp = do {
     n \<leftarrow> int_to_float tp;
     x \<leftarrow> float_mul n (float_literal (15 / 100));
     Some (float_to_int x)
   }"

definition ed_transports :: "int \<Rightarrow> int \<Rightarrow> int \<Rightarrow> int" where
  "ed_transports tp os acs = tp - os - acs"

text \<open>\<^verbatim>\<open>(ed_transports / BASELINE_ED_CAPACITY) * 60\<close>\<close>

definition surge_burden :: "int \<Rightarrow> rat option" where
  "surge_burden ed = do {
     q \<leftarrow> int_truediv ed BASELINE_ED_CAPACITY;
     float_mul q 60
   }"

text \<open>The float \<^verbatim>\<open>80 + surge_burden\<close> that line 47 hands to \<^verbatim>\<open>int\<close>.\<close>

definition nedocs_raw :: "int \<Rightarrow> rat option" where
  "nedocs_raw ed = do {
     sb \<leftarrow> surge_burden ed;
     float_add 80 sb
   }"

text \<open>\<^verbatim>\<open>nedocs_score = int(80 + surge_burden)\<close>, then \<^verbatim>\<open>min(nedocs_score, 200)\<close>.\<close>

definition nedocs_score :: "int \<Rightarrow> int option" where
  "nedocs_score ed = do {
     raw \<leftarrow> nedocs_raw ed;
     Some (min (float_to_int raw) 200)
   }"

text \<open>\<^verbatim>\<open>CRITICAL_NEDOCS_THRESHOLD * 0.95\<close>\<close>

definition warning_threshold :: "rat option" where
  "warning_threshold = do {
     c \<leftarrow> int_to_float CRITICAL_NEDOCS_THRESHOLD;
     float_mul c (float_literal (95 / 100))
   }"

text \<open>The \<^verbatim>\<open>if\<close>/\<^verbatim>\<open>elif\<close> chain of lines 63 to 72; Python compares the int score with the float threshold exactly.\<close>

definition alert_banner :: "int \<Rightarrow> int \<Rightarrow> SeverityTier option" where
  "alert_banner t score = do {
     wt \<leftarrow> warning_threshold;
     Some (if 98 \<le> t then Override
           else if CRITICAL_NEDOCS_THRESHOLD \<le> score then Critical
           else if wt \<le> of_int score then Warning
           else Normal)
   }"

text \<open>What one run of the script hands to the charts and the banner.\<close>

record SurgeEstimate =
  envMultiplier :: rat
  venueMultiplier :: rat
  totalPatients :: int
  onSite :: int
  deflected :: int
  edTransports :: int
  nedocsScoreRaw :: rat
  nedocsScoreCapped :: int
  tier :: SeverityTier

definition surge_radar :: "ScenarioInput \<Rightarrow> SurgeEstimate option" where
  "surge_radar inp = do {
     hm \<leftarrow> heat_index_multiplier (temp inp) (humidity inp);
     tp \<leftarrow> total_patients (attendance inp) hm (venue_multiplier (venue_type inp));
     os \<leftarrow> onsite_treat tp;
     acs \<leftarrow> acs_telehealth tp;
     raw \<leftarrow> nedocs_raw (ed_transports tp os acs);
     score \<leftarrow> nedocs_score (ed_transports tp os acs);
     b \<leftarrow> alert_banner (temp inp) score;
     Some \<lparr> envMultiplier = hm,
            venueMultiplier = venue_multiplier (venue_type inp),
            totalPatients = tp,
            onSite = os,
            deflected = acs,
            edTransports = ed_transports tp os acs,
            nedocsScoreRaw = raw,
            nedocsScoreCapped = score,
            tier = b \<rparr>
   }"

subsection \<open>The values of the float expressions when nothing overflows\<close>

text \<open>
  The theorems below show that, for inputs of ordinary size, the operations above all
  succeed and the script's variables have these values: each arithmetic operation of the
  source expression is one \<open>rnd\<close>.
\<close>

text \<open>\<^verbatim>\<open>max(0, (temp - 85) * 0.05)\<close> and \<^verbatim>\<open>max(0, (humidity - 60) * 0.01)\<close>\<close>

definition temp_excess :: "int \<Rightarrow> rat" where
  "temp_excess t = max 0 (rnd (rnd (of_int (t - 85)) * float_literal (5 / 100)))"

definition humidity_excess :: "int \<Rightarrow> rat" where
  "humidity_excess h = max 0 (rnd (rnd (of_int (h - 60)) * float_literal (1 / 100)))"

text \<open>The double \<^verbatim>\<open>heat_index_multiplier\<close>.\<close>

definition heat_double :: "int \<Rightarrow> int \<Rightarrow> rat" where
  "heat_double t h = rnd (rnd (1 + temp_excess t) + humidity_excess h)"

text \<open>The double \<^verbatim>\<open>80 + surge_burden\<close>.\<close>

definition raw_double :: "int \<Rightarrow> rat" where
  "raw_double ed = rnd (80 + rnd (rnd (of_int ed / 80) * 60))"

text \<open>The banner chain with the warning threshold \<open>140 * 0.95\<close> evaluated to 133.\<close>

definition banner_for :: "int \<Rightarrow> int \<Rightarrow> SeverityTier" where
  "banner_for t score =
     (if 98 \<le> t then Override
      else if 140 \<le> score then Critical
      else if 133 \<le> score then Warning
      else Normal)"

subsection \<open>The formulas of the specification in exact arithmetic\<close>



section \<open>Properties of the rounding\<close>

lemma blen_pos: "0 < n \<Longrightarrow> 0 < blen n"
proof (induction n rule: blen.induct)
  case (1 n)
  show ?case
  proof (cases "n div 2 \<le> 0")
    case True
    then show ?thesis using "1.prems" by (subst blen.simps, subst blen.simps) simp
  next
    case False
    then have "0 < blen (n div 2)" using 1 by simp
    then show ?thesis using "1.prems" by (subst blen.simps) simp
  qed
qed

lemma blen_bounds:
  "0 < n \<Longrightarrow> 2 ^ nat (blen n - 1) \<le> n \<and> n < 2 ^ nat (blen n)"
proof (induction n rule: blen.induct)
  case (1 n)
  show ?case
  proof (cases "n = 1")
    case True
    have "blen 1 = 1" by (subst blen.simps, subst blen.simps) simp
    then show ?thesis using True by simp
  next
    case False
    then have h: "0 < n div 2" using "1.prems" by simp
    let ?b = "blen (n div 2)"
    have ih: "2 ^ nat (?b - 1) \<le> n div 2" "n div 2 < 2 ^ nat ?b"
      using 1 h by simp_all
    have bp: "0 < ?b" using h by (rule blen_pos)
    have eq: "blen n = ?b + 1" using "1.prems" by (subst blen.simps) simp
    have e1: "nat (blen n - 1) = Suc (nat (?b - 1))" using bp eq by simp
    have e2: "nat (blen n) = Suc (nat ?b)" using bp eq by simp
    have "2 * (n div 2) \<le> n" "n < 2 * (n div 2) + 2" by presburger+
    with ih show ?thesis unfolding e1 e2 by simp
  qed
qed

lemma pow2_less_iff: "(2::rat) powi m < 2 powi n \<longleftrightarrow> m < n"
proof
  assume "(2::rat) powi m < 2 powi n"
  show "m < n"
  proof (rule ccontr)
    assume "\<not> m < n"
    then have "(2::rat) powi n \<le> 2 powi m" by (intro power_int_increasing) simp_all
    with \<open>(2::rat) powi m < 2 powi n\<close> show False by simp
  qed
next
  assume "m < n"
  then show "(2::rat) powi m < 2 powi n" by (intro power_int_strict_increasing) simp_all
qed

lemma pow2_le_iff: "(2::rat) powi m \<le> 2 powi n \<longleftrightarrow> m \<le> n"
  using pow2_less_iff [of n m] by (simp add: not_less [symmetric])

lemma pow2_split: "(2::rat) powi (m + n) = 2 powi m * 2 powi n"
  by (simp add: power_int_add)

lemma pow2_diff: "(2::rat) powi (m - n) = 2 powi m / 2 powi n"
  by (simp add: power_int_diff)

lemma blen_bounds_rat:
  assumes "0 < n"
  shows "(2::rat) powi (blen n - 1) \<le> of_int n" "(of_int n :: rat) < 2 powi blen n"
proof -
  have bp: "0 < blen n" using assms by (rule blen_pos)
  have "(of_int ((2::int) ^ nat (blen n - 1)) :: rat) \<le> of_int n"
    using blen_bounds [OF assms] by (simp only: of_int_le_iff)
  then show "(2::rat) powi (blen n - 1) \<le> of_int n"
    using bp by (simp add: power_int_def)
  have "(of_int n :: rat) < of_int ((2::int) ^ nat (blen n))"
    using blen_bounds [OF assms] by (simp only: of_int_less_iff)
  then show "(of_int n :: rat) < 2 powi blen n"
    using bp by (simp add: power_int_def)
qed

lemma ilog2_bounds:
  assumes "0 < x"
  shows "2 powi ilog2 x \<le> x" "x < 2 powi (ilog2 x + 1)"
proof -
  obtain p q where pq: "quotient_of x = (p, q)" by force
  have q: "0 < q" using pq by (rule quotient_of_denom_pos)
  have x: "x = of_int p / of_int q" using pq by (rule quotient_of_div)
  have p: "0 < p" using assms q unfolding x by (simp add: zero_less_divide_iff)
  let ?k = "blen p - blen q"
  have up: "x < 2 powi (?k + 1)"
  proof -
    have "of_int p < (2::rat) powi blen p" using p by (rule blen_bounds_rat)
    moreover have "(2::rat) powi (blen q - 1) \<le> of_int q" using q by (rule blen_bounds_rat)
    ultimately have "of_int p * (2::rat) powi (blen q - 1) < 2 powi blen p * of_int q"
      using p q by (intro mult_less_le_imp_less) simp_all
    then have "x * 2 powi (blen q - 1) < (2::rat) powi blen p"
      unfolding x using q by (simp add: field_simps)
    then have "x < (2::rat) powi blen p / 2 powi (blen q - 1)"
      by (simp add: field_simps)
    also have "\<dots> = 2 powi (blen p - (blen q - 1))"
      by (simp only: pow2_diff)
    also have "blen p - (blen q - 1) = ?k + 1" by simp
    finally show ?thesis .
  qed
  have lo: "2 powi (?k - 1) \<le> x"
  proof -
    have "(2::rat) powi (blen p - 1) \<le> of_int p" using p by (rule blen_bounds_rat)
    moreover have "of_int q < (2::rat) powi blen q" using q by (rule blen_bounds_rat)
    ultimately have "(2::rat) powi (blen p - 1) * of_int q \<le> of_int p * 2 powi blen q"
      using p q by (intro mult_mono) simp_all
    then have "(2::rat) powi (blen p - 1) / 2 powi blen q \<le> x"
      unfolding x using q by (simp add: field_simps)
    moreover have "(2::rat) powi (blen p - 1) / 2 powi blen q = 2 powi (blen p - 1 - blen q)"
      by (simp only: pow2_diff)
    moreover have "blen p - 1 - blen q = ?k - 1" by simp
    ultimately show ?thesis by simp
  qed
  show "2 powi ilog2 x \<le> x"
    using lo by (simp add: ilog2_def pq Let_def)
  show "x < 2 powi (ilog2 x + 1)"
    using up by (auto simp add: ilog2_def pq Let_def not_le)
qed

lemma ilog2_unique:
  assumes "2 powi e \<le> x" "x < 2 powi (e + 1)"
  shows "ilog2 x = e"
proof -
  have pos: "0 < x" using assms(1) by (rule less_le_trans [rotated]) simp
  note b = ilog2_bounds [OF pos]
  have "(2::rat) powi e < 2 powi (ilog2 x + 1)" using assms(1) b(2) by simp
  then have 1: "e < ilog2 x + 1" by (simp only: pow2_less_iff)
  have "(2::rat) powi ilog2 x < 2 powi (e + 1)" using assms(2) b(1) by simp
  then have 2: "ilog2 x < e + 1" by (simp only: pow2_less_iff)
  from 1 2 show ?thesis by simp
qed


lemma rne_of_int: "rne (of_int n) = n"
  by (simp add: rne_def)

lemma rne_error: "\<bar>of_int (rne y) - y\<bar> \<le> 1 / 2"
proof -
  have "of_int \<lfloor>y\<rfloor> \<le> y" "y < of_int \<lfloor>y\<rfloor> + 1" by linarith+
  then show ?thesis by (auto simp add: rne_def Let_def)
qed

lemma rne_mono:
  assumes "x \<le> y"
  shows "rne x \<le> rne y"
proof -
  have fl: "\<lfloor>x\<rfloor> \<le> \<lfloor>y\<rfloor>" using assms by (rule floor_mono)
  have lo: "\<lfloor>y\<rfloor> \<le> rne y" by (simp add: rne_def Let_def)
  have hi: "rne x \<le> \<lfloor>x\<rfloor> + 1" by (simp add: rne_def Let_def)
  show ?thesis
  proof (cases "\<lfloor>x\<rfloor> = \<lfloor>y\<rfloor>")
    case True
    then show ?thesis using assms by (auto simp add: rne_def Let_def)
  next
    case False
    then have "\<lfloor>x\<rfloor> + 1 \<le> \<lfloor>y\<rfloor>" using fl by simp
    then show ?thesis using lo hi by linarith
  qed
qed

lemma rne_neg: "rne (- y) = - rne y"
proof (cases "y = of_int \<lfloor>y\<rfloor>")
  case True
  then obtain n where "y = of_int n" ..
  then have "- y = of_int (- n)" by simp
  then show ?thesis unfolding \<open>y = of_int n\<close> by (simp only: rne_of_int)
next
  case False
  then have d: "of_int \<lfloor>y\<rfloor> < y" "y < of_int \<lfloor>y\<rfloor> + 1" by linarith+
  have "\<lfloor>- y\<rfloor> = - \<lfloor>y\<rfloor> - 1" using d by (intro floor_unique) simp_all
  then show ?thesis using d by (auto simp add: rne_def Let_def)
qed

lemma rnd_zero: "rnd 0 = 0"
  by (simp add: rnd_def)

lemma rnd_neg: "rnd (- x) = - rnd x"
  by (simp add: rnd_def Let_def rne_neg)

lemma rnd_binade:
  assumes "2 powi e \<le> x" "x < 2 powi (e + 1)"
  shows "rnd x = of_int (rne (x / 2 powi (e - 52))) * 2 powi (e - 52)"
proof -
  have pos: "0 < x" using assms(1) by (rule less_le_trans [rotated]) simp
  have "ilog2 \<bar>x\<bar> = e" using assms pos by (intro ilog2_unique) simp_all
  then show ?thesis using pos by (simp add: rnd_def Let_def)
qed

lemma rnd_binade_bounds:
  assumes "2 powi e \<le> x" "x < 2 powi (e + 1)"
  shows "2 powi e \<le> rnd x" "rnd x \<le> 2 powi (e + 1)"
proof -
  let ?s = "(2::rat) powi (e - 52)"
  have s: "0 < ?s" by simp
  have lo: "(2::rat) powi e / ?s = of_int (2 ^ 52)"
    by (simp add: pow2_diff)
  have hi: "(2::rat) powi (e + 1) / ?s = of_int (2 ^ 53)"
    by (simp add: pow2_diff pow2_split)
  have "rne (2 powi e / ?s) \<le> rne (x / ?s)"
    using assms(1) s by (intro rne_mono divide_right_mono) simp_all
  then have "2 ^ 52 \<le> rne (x / ?s)" unfolding lo rne_of_int .
  then have "(of_int (2 ^ 52) :: rat) \<le> of_int (rne (x / ?s))" by (simp only: of_int_le_iff)
  then have "of_int (2 ^ 52) * ?s \<le> of_int (rne (x / ?s)) * ?s"
    using s by (intro mult_right_mono) simp_all
  moreover have "of_int (2 ^ 52) * ?s = 2 powi e" using lo by (simp add: field_simps)
  ultimately have "2 powi e \<le> of_int (rne (x / ?s)) * ?s" by (simp only:)
  then show "2 powi e \<le> rnd x" by (simp only: rnd_binade [OF assms])
  have "rne (x / ?s) \<le> rne (2 powi (e + 1) / ?s)"
    using assms(2) s by (intro rne_mono divide_right_mono) simp_all
  then have "rne (x / ?s) \<le> 2 ^ 53" unfolding hi rne_of_int .
  then have "(of_int (rne (x / ?s)) :: rat) \<le> of_int (2 ^ 53)" by (simp only: of_int_le_iff)
  then have "of_int (rne (x / ?s)) * ?s \<le> of_int (2 ^ 53) * ?s"
    using s by (intro mult_right_mono) simp_all
  moreover have "of_int (2 ^ 53) * ?s = 2 powi (e + 1)" using hi by (simp add: field_simps)
  ultimately have "of_int (rne (x / ?s)) * ?s \<le> 2 powi (e + 1)" by (simp only:)
  then show "rnd x \<le> 2 powi (e + 1)" by (simp only: rnd_binade [OF assms])
qed

lemma rnd_pos: "0 < x \<Longrightarrow> 0 < rnd x"
proof -
  assume pos: "0 < x"
  have "(0::rat) < 2 powi ilog2 x" by simp
  also have "\<dots> \<le> rnd x" using ilog2_bounds [OF pos] by (rule rnd_binade_bounds)
  finally show ?thesis .
qed

lemma rnd_mono_pos:
  assumes "0 < x" "x \<le> y"
  shows "rnd x \<le> rnd y"
proof -
  have ypos: "0 < y" using assms by simp
  note bx = ilog2_bounds [OF assms(1)] and bye = ilog2_bounds [OF ypos]
  have "(2::rat) powi ilog2 x < 2 powi (ilog2 y + 1)" using bx(1) assms(2) bye(2) by simp
  then have le: "ilog2 x \<le> ilog2 y" by (simp add: pow2_less_iff)
  show ?thesis
  proof (cases "ilog2 x = ilog2 y")
    case True
    let ?s = "(2::rat) powi (ilog2 y - 52)"
    have "rne (x / ?s) \<le> rne (y / ?s)"
      using assms(2) by (intro rne_mono divide_right_mono) simp_all
    then have "(of_int (rne (x / ?s)) :: rat) * ?s \<le> of_int (rne (y / ?s)) * ?s"
      by (intro mult_right_mono) simp_all
    then show ?thesis
      using rnd_binade [OF bx] rnd_binade [OF bye] True by simp
  next
    case False
    then have "ilog2 x + 1 \<le> ilog2 y" using le by simp
    then have "(2::rat) powi (ilog2 x + 1) \<le> 2 powi ilog2 y" by (simp only: pow2_le_iff)
    moreover have "rnd x \<le> 2 powi (ilog2 x + 1)" using bx by (rule rnd_binade_bounds)
    moreover have "2 powi ilog2 y \<le> rnd y" using bye by (rule rnd_binade_bounds)
    ultimately show ?thesis by linarith
  qed
qed

lemma rnd_mono:
  assumes "x \<le> y"
  shows "rnd x \<le> rnd y"
proof -
  consider "0 < x" | "x \<le> 0" "0 \<le> y" | "y < 0" by linarith
  then show ?thesis
  proof cases
    case 1
    then show ?thesis using assms by (rule rnd_mono_pos)
  next
    case 2
    have "rnd x \<le> 0"
    proof (cases "x = 0")
      case True then show ?thesis by (simp add: rnd_zero)
    next
      case False
      then have "0 < rnd (- x)" using 2 by (intro rnd_pos) simp
      then show ?thesis by (simp add: rnd_neg)
    qed
    moreover have "0 \<le> rnd y"
    proof (cases "y = 0")
      case True then show ?thesis by (simp add: rnd_zero)
    next
      case False
      then have "0 < rnd y" using 2 by (intro rnd_pos) simp
      then show ?thesis by simp
    qed
    ultimately show ?thesis by simp
  next
    case 3
    then have "rnd (- y) \<le> rnd (- x)" using assms by (intro rnd_mono_pos) simp_all
    then show ?thesis by (simp add: rnd_neg)
  qed
qed

lemma rnd_error_pos:
  assumes "0 < x"
  shows "\<bar>rnd x - x\<bar> \<le> x / 2 ^ 53"
proof -
  let ?e = "ilog2 x"
  let ?s = "(2::rat) powi (?e - 52)"
  note b = ilog2_bounds [OF assms]
  have s: "0 < ?s" by simp
  have "\<bar>of_int (rne (x / ?s)) - x / ?s\<bar> \<le> 1 / 2" by (rule rne_error)
  then have "\<bar>of_int (rne (x / ?s)) - x / ?s\<bar> * ?s \<le> 1 / 2 * ?s"
    using s by (intro mult_right_mono) simp_all
  moreover have "\<bar>of_int (rne (x / ?s)) - x / ?s\<bar> * ?s = \<bar>rnd x - x\<bar>"
  proof -
    have "\<bar>of_int (rne (x / ?s)) - x / ?s\<bar> * ?s = \<bar>(of_int (rne (x / ?s)) - x / ?s) * ?s\<bar>"
      using s by (simp add: abs_mult)
    also have "(of_int (rne (x / ?s)) - x / ?s) * ?s = rnd x - x"
      unfolding rnd_binade [OF b] using s by (simp add: field_simps)
    finally show ?thesis .
  qed
  moreover have "1 / 2 * ?s = 2 powi ?e / 2 ^ 53"
    by (simp add: pow2_diff)
  moreover have "2 powi ?e / 2 ^ 53 \<le> x / 2 ^ 53"
    using b(1) by (intro divide_right_mono) simp_all
  ultimately show ?thesis by linarith
qed

lemma rnd_error: "\<bar>rnd x - x\<bar> \<le> \<bar>x\<bar> / 2 ^ 53"
proof -
  consider "0 < x" | "x = 0" | "x < 0" by linarith
  then show ?thesis
  proof cases
    case 1
    then show ?thesis using rnd_error_pos [OF 1] by simp
  next
    case 2
    then show ?thesis by (simp add: rnd_zero)
  next
    case 3
    then have "\<bar>rnd (- x) - (- x)\<bar> \<le> (- x) / 2 ^ 53" by (intro rnd_error_pos) simp
    moreover have "\<bar>rnd (- x) - (- x)\<bar> = \<bar>rnd x - x\<bar>" by (simp add: rnd_neg)
    ultimately show ?thesis using 3 by simp
  qed
qed

lemma rnd_fix_pos:
  assumes "0 < m" "m < 2 ^ 53"
  shows "rnd (of_int m * 2 powi k) = of_int m * 2 powi k"
proof -
  let ?x = "of_int m * (2::rat) powi k"
  have pos: "0 < ?x" using assms(1) by simp
  let ?e = "ilog2 ?x"
  note b = ilog2_bounds [OF pos]
  have "(of_int m :: rat) < of_int (2 ^ 53)" using assms(2) by (simp only: of_int_less_iff)
  then have "?x < of_int (2 ^ 53) * 2 powi k" by (intro mult_strict_right_mono) simp_all
  also have "\<dots> = 2 powi (53 + k)" by (simp add: pow2_split)
  finally have "(2::rat) powi ?e < 2 powi (53 + k)" using b(1) by simp
  then have "?e < 53 + k" by (simp only: pow2_less_iff)
  then have d: "0 \<le> k - (?e - 52)" by simp
  have "?x / 2 powi (?e - 52) = of_int m * 2 powi (k - (?e - 52))"
    by (simp add: pow2_diff)
  also have "\<dots> = of_int (m * 2 ^ nat (k - (?e - 52)))"
    using d by (simp add: power_int_def)
  finally have q: "?x / 2 powi (?e - 52) = of_int (m * 2 ^ nat (k - (?e - 52)))" .
  have "rnd ?x = of_int (rne (?x / 2 powi (?e - 52))) * 2 powi (?e - 52)"
    using b by (rule rnd_binade)
  also have "\<dots> = ?x / 2 powi (?e - 52) * 2 powi (?e - 52)"
    unfolding q rne_of_int ..
  also have "\<dots> = ?x" by simp
  finally show ?thesis .
qed

lemma rnd_fix:
  assumes "\<bar>m\<bar> < 2 ^ 53"
  shows "rnd (of_int m * 2 powi k) = of_int m * 2 powi k"
proof -
  consider "0 < m" | "m = 0" | "m < 0" by linarith
  then show ?thesis
  proof cases
    case 1
    then show ?thesis using assms by (intro rnd_fix_pos) simp_all
  next
    case 2
    then show ?thesis by (simp add: rnd_zero)
  next
    case 3
    then have "rnd (of_int (- m) * 2 powi k) = of_int (- m) * 2 powi k"
      using assms by (intro rnd_fix_pos) simp_all
    then show ?thesis using rnd_neg [of "of_int m * 2 powi k"] by simp
  qed
qed

lemma rnd_of_int:
  assumes "\<bar>n\<bar> < 2 ^ 53"
  shows "rnd (of_int n) = of_int n"
  using rnd_fix [OF assms, of 0] by simp

section \<open>Constants of the script\<close>

lemma lit_005: "float_literal (5 / 100) = 3602879701896397 / 72057594037927936"
  unfolding float_literal_def by code_simp

lemma lit_001: "float_literal (1 / 100) = 5764607523034235 / 576460752303423488"
  unfolding float_literal_def by code_simp

lemma lit_065: "float_literal (65 / 100) = 5854679515581645 / 9007199254740992"
  unfolding float_literal_def by code_simp

lemma lit_015: "float_literal (15 / 100) = 5404319552844595 / 36028797018963968"
  unfolding float_literal_def by code_simp

lemma warning_threshold_value: "warning_threshold = Some 133"
  by code_simp

section \<open>The exponent range\<close>

lemma rnd_pow2: "rnd (2 powi k) = 2 powi k"
  using rnd_fix [of 1 k] by simp

lemma rnd_abs_le:
  assumes "\<bar>x\<bar> \<le> b" "rnd b = b"
  shows "\<bar>rnd x\<bar> \<le> b"
proof -
  have "rnd x \<le> rnd b" using assms(1) by (intro rnd_mono) simp
  moreover have "rnd (- b) \<le> rnd x" using assms(1) by (intro rnd_mono) simp
  ultimately show ?thesis using assms(2) by (simp add: rnd_neg abs_le_iff)
qed

lemma DBL_MAX_eq: "DBL_MAX = of_int (2 ^ 53 - 1) * 2 powi 971"
  by (simp add: DBL_MAX_def)

lemma rnd_DBL_MAX: "rnd DBL_MAX = DBL_MAX"
  unfolding DBL_MAX_eq by (rule rnd_fix) simp

lemma to_double_ok: "\<bar>x\<bar> \<le> DBL_MAX \<Longrightarrow> to_double x = Some (rnd x)"
  using rnd_abs_le [OF _ rnd_DBL_MAX, of x] by (simp add: to_double_def)

lemma pow2_1023_le: "(2::rat) ^ 1023 \<le> DBL_MAX"
  by (simp add: DBL_MAX_def)

lemma to_double_small: "\<bar>x\<bar> \<le> 2 ^ 1023 \<Longrightarrow> to_double x = Some (rnd x)"
  using pow2_1023_le by (intro to_double_ok) simp

lemma rnd_abs_le_pow2: "\<bar>x\<bar> \<le> 2 ^ n \<Longrightarrow> \<bar>rnd x\<bar> \<le> 2 ^ n"
  using rnd_abs_le [of x "2 ^ n"] rnd_pow2 [of "int n"] by simp

lemma rnd_nonneg: "0 \<le> x \<Longrightarrow> 0 \<le> rnd x"
  using rnd_mono [of 0 x] by (simp add: rnd_zero)

lemma rnd_nonpos: "x \<le> 0 \<Longrightarrow> rnd x \<le> 0"
  using rnd_mono [of x 0] by (simp add: rnd_zero)

lemma rnd_numeral: "numeral w < (2::int) ^ 53 \<Longrightarrow> rnd (numeral w) = numeral w"
  using rnd_of_int [of "numeral w"] by simp

lemma rnd_one: "rnd 1 = 1"
  using rnd_of_int [of 1] by simp

lemma to_double_SomeD: "to_double x = Some y \<Longrightarrow> y = rnd x"
  by (simp add: to_double_def Let_def split: if_splits)

section \<open>The environmental multiplier\<close>

lemma excess_term:
  assumes n: "\<bar>n\<bar> \<le> 2 ^ 1023" and c: "0 \<le> c" "c \<le> 1 / 16"
  shows "int_to_float n = Some (rnd (of_int n))"
    and "float_mul (rnd (of_int n)) c = Some (rnd (rnd (of_int n) * c))"
    and "\<bar>rnd (rnd (of_int n) * c)\<bar> \<le> 2 ^ 1019"
proof -
  have n': "\<bar>of_int n :: rat\<bar> \<le> 2 ^ 1023"
  proof -
    have "(of_int \<bar>n\<bar> :: rat) \<le> of_int (2 ^ 1023)" using n by (simp only: of_int_le_iff)
    then show ?thesis by simp
  qed
  then show "int_to_float n = Some (rnd (of_int n))"
    unfolding int_to_float_def by (rule to_double_small)
  have tf: "\<bar>rnd (of_int n)\<bar> \<le> 2 ^ 1023" using n' by (rule rnd_abs_le_pow2)
  have "\<bar>rnd (of_int n) * c\<bar> = \<bar>rnd (of_int n)\<bar> * c" using c by (simp add: abs_mult)
  also have "\<dots> \<le> 2 ^ 1023 * (1 / 16)" using tf c by (intro mult_mono) simp_all
  also have "\<dots> = 2 ^ 1019" by simp
  finally have p: "\<bar>rnd (of_int n) * c\<bar> \<le> 2 ^ 1019" .
  then show "float_mul (rnd (of_int n)) c = Some (rnd (rnd (of_int n) * c))"
    unfolding float_mul_def by (intro to_double_small) simp
  show "\<bar>rnd (rnd (of_int n) * c)\<bar> \<le> 2 ^ 1019" using p by (rule rnd_abs_le_pow2)
qed

lemma heat_index_multiplier_value:
  assumes t: "\<bar>t - 85\<bar> \<le> 2 ^ 1023" and h: "\<bar>h - 60\<bar> \<le> 2 ^ 1023"
  shows "heat_index_multiplier t h = Some (rnd (rnd (1 + temp_excess t) + humidity_excess h))"
proof -
  have c5: "0 \<le> float_literal (5 / 100)" "float_literal (5 / 100) \<le> 1 / 16"
    unfolding lit_005 by simp_all
  have c1: "0 \<le> float_literal (1 / 100)" "float_literal (1 / 100) \<le> 1 / 16"
    unfolding lit_001 by simp_all
  note T = excess_term [OF t c5] and H = excess_term [OF h c1]
  have a: "0 \<le> temp_excess t" "temp_excess t \<le> 2 ^ 1019"
    using T(3) by (simp_all add: temp_excess_def abs_le_iff)
  have b: "0 \<le> humidity_excess h" "humidity_excess h \<le> 2 ^ 1019"
    using H(3) by (simp_all add: humidity_excess_def abs_le_iff)
  have s0: "\<bar>1 + temp_excess t\<bar> \<le> 2 ^ 1020" using a by simp
  then have "\<bar>1 + temp_excess t\<bar> \<le> 2 ^ 1023" by simp
  then have s1: "float_add 1 (temp_excess t) = Some (rnd (1 + temp_excess t))"
    unfolding float_add_def by (rule to_double_small)
  have s2: "\<bar>rnd (1 + temp_excess t)\<bar> \<le> 2 ^ 1020" using s0 by (rule rnd_abs_le_pow2)
  note s = s1 s2
  have "\<bar>rnd (1 + temp_excess t) + humidity_excess h\<bar> \<le> 2 ^ 1023"
    using s(2) b by (simp add: abs_le_iff)
  then have r: "float_add (rnd (1 + temp_excess t)) (humidity_excess h) =
      Some (rnd (rnd (1 + temp_excess t) + humidity_excess h))"
    unfolding float_add_def by (rule to_double_small)
  show ?thesis
    by (simp only: heat_index_multiplier_def T(1,2) H(1,2) Option.bind.bind_lunit
        temp_excess_def [symmetric] humidity_excess_def [symmetric] s1 r)
qed



lemma excess_nonneg: "0 \<le> temp_excess t" "0 \<le> humidity_excess h"
  by (simp_all add: temp_excess_def humidity_excess_def)

lemma heat_formula_ge_one: "1 \<le> rnd (rnd (1 + temp_excess t) + humidity_excess h)"
proof -
  have "rnd 1 \<le> rnd (1 + temp_excess t)" using excess_nonneg by (intro rnd_mono) simp
  then have "1 \<le> rnd (1 + temp_excess t) + humidity_excess h"
    using excess_nonneg(2) [of h] by (simp add: rnd_one)
  then have "rnd 1 \<le> rnd (rnd (1 + temp_excess t) + humidity_excess h)" by (rule rnd_mono)
  then show ?thesis by (simp add: rnd_one)
qed

section \<open>Bounds on the ranges of the controls\<close>

lemma rnd_between:
  assumes "a \<le> x" "x \<le> b" "rnd a = a" "rnd b = b"
  shows "a \<le> rnd x" "rnd x \<le> b"
  using rnd_mono [OF assms(1)] rnd_mono [OF assms(2)] assms(3,4) by simp_all

lemma float_to_int_mono: "x \<le> y \<Longrightarrow> float_to_int x \<le> float_to_int y"
proof -
  assume le: "x \<le> y"
  consider "0 \<le> x" | "x < 0" "0 \<le> y" | "y < 0" by linarith
  then show ?thesis
  proof cases
    case 1
    then show ?thesis using le by (simp add: float_to_int_def floor_mono)
  next
    case 2
    then have "\<lceil>x\<rceil> \<le> 0" "0 \<le> \<lfloor>y\<rfloor>" by (simp_all add: ceiling_le_iff)
    then have "\<lceil>x\<rceil> \<le> \<lfloor>y\<rfloor>" by linarith
    then show ?thesis using 2 by (simp add: float_to_int_def)
  next
    case 3
    then show ?thesis using le by (simp add: float_to_int_def ceiling_mono)
  qed
qed

lemma temp_excess_le:
  assumes "t \<le> 120"
  shows "temp_excess t \<le> 2"
proof -
  have "\<bar>t - 85\<bar> < 2 ^ 53 \<or> t - 85 \<le> 0" using assms by auto
  then have "rnd (of_int (t - 85)) \<le> 35"
  proof
    assume "\<bar>t - 85\<bar> < 2 ^ 53"
    then have "rnd (of_int (t - 85)) = of_int (t - 85)" by (rule rnd_of_int)
    then show ?thesis using assms by simp
  next
    assume "t - 85 \<le> 0"
    then have "(of_int (t - 85) :: rat) \<le> 0" by (simp only: of_int_le_0_iff)
    then have "rnd (of_int (t - 85)) \<le> 0" by (rule rnd_nonpos)
    then show ?thesis by simp
  qed
  then have "rnd (of_int (t - 85)) * float_literal (5 / 100) \<le> 35 * float_literal (5 / 100)"
    unfolding lit_005 by (intro mult_right_mono) simp_all
  also have "\<dots> \<le> 2" unfolding lit_005 by simp
  finally have "rnd (rnd (of_int (t - 85)) * float_literal (5 / 100)) \<le> rnd 2" by (rule rnd_mono)
  then show ?thesis by (simp add: temp_excess_def rnd_numeral)
qed

lemma humidity_excess_le:
  assumes "h \<le> 100"
  shows "humidity_excess h \<le> 1"
proof -
  have "\<bar>h - 60\<bar> < 2 ^ 53 \<or> h - 60 \<le> 0" using assms by auto
  then have "rnd (of_int (h - 60)) \<le> 40"
  proof
    assume "\<bar>h - 60\<bar> < 2 ^ 53"
    then have "rnd (of_int (h - 60)) = of_int (h - 60)" by (rule rnd_of_int)
    then show ?thesis using assms by simp
  next
    assume "h - 60 \<le> 0"
    then have "(of_int (h - 60) :: rat) \<le> 0" by (simp only: of_int_le_0_iff)
    then have "rnd (of_int (h - 60)) \<le> 0" by (rule rnd_nonpos)
    then show ?thesis by simp
  qed
  then have "rnd (of_int (h - 60)) * float_literal (1 / 100) \<le> 40 * float_literal (1 / 100)"
    unfolding lit_001 by (intro mult_right_mono) simp_all
  also have "\<dots> \<le> 1" unfolding lit_001 by simp
  finally have "rnd (rnd (of_int (h - 60)) * float_literal (1 / 100)) \<le> rnd 1" by (rule rnd_mono)
  then show ?thesis by (simp add: humidity_excess_def rnd_one)
qed

lemma heat_formula_le:
  assumes "t \<le> 120" "h \<le> 100"
  shows "rnd (rnd (1 + temp_excess t) + humidity_excess h) \<le> 4"
proof -
  have "rnd (1 + temp_excess t) \<le> rnd 3"
    using temp_excess_le [OF assms(1)] by (intro rnd_mono) simp
  then have "rnd (1 + temp_excess t) + humidity_excess h \<le> 4"
    using humidity_excess_le [OF assms(2)] by (simp add: rnd_numeral)
  then have "rnd (rnd (1 + temp_excess t) + humidity_excess h) \<le> rnd 4" by (rule rnd_mono)
  then show ?thesis by (simp add: rnd_numeral)
qed

lemma total_patients_bounds:
  assumes att: "10000 \<le> att" "att \<le> 150000"
    and heat: "1 \<le> heat" "heat \<le> 4"
    and vm: "vm = 1 \<or> vm = 2"
  shows "\<exists>tp. total_patients att heat vm = Some tp \<and> 15 \<le> tp \<and> tp \<le> 1800
     \<and> tp = \<lfloor>rnd (rnd (rnd (rnd (of_int att / 10000) * 15) * heat) * vm)\<rfloor>"
proof -
  let ?q = "rnd (of_int att / 10000)"
  let ?p1 = "rnd (?q * 15)"
  let ?p2 = "rnd (?p1 * heat)"
  let ?p3 = "rnd (?p2 * vm)"
  have a: "(1::rat) \<le> of_int att / 10000" "(of_int att :: rat) / 10000 \<le> 15"
    using att by simp_all
  have q: "1 \<le> ?q" "?q \<le> 15"
    using rnd_between [OF a] by (simp_all add: rnd_one rnd_numeral)
  then have "15 \<le> ?q * 15" "?q * 15 \<le> 225" by simp_all
  then have p1: "15 \<le> ?p1" "?p1 \<le> 225"
    using rnd_between [of 15 "?q * 15" 225] by (simp_all add: rnd_numeral)
  have "15 * 1 \<le> ?p1 * heat" using p1 heat by (intro mult_mono) simp_all
  moreover have "?p1 * heat \<le> 225 * 4" using p1 heat by (intro mult_mono) simp_all
  ultimately have p2: "15 \<le> ?p2" "?p2 \<le> 900"
    using rnd_between [of 15 "?p1 * heat" 900] by (simp_all add: rnd_numeral)
  have v: "1 \<le> vm" "vm \<le> 2" using vm by auto
  have "15 * 1 \<le> ?p2 * vm" using p2 v by (intro mult_mono) simp_all
  moreover have "?p2 * vm \<le> 900 * 2" using p2 v by (intro mult_mono) simp_all
  ultimately have p3: "15 \<le> ?p3" "?p3 \<le> 1800"
    using rnd_between [of 15 "?p2 * vm" 1800] by (simp_all add: rnd_numeral)
  have e1: "int_truediv att 10000 = Some ?q"
    unfolding int_truediv_def using a by (simp add: to_double_small)
  have e2: "float_mul ?q base_ppr_per_10k = Some ?p1"
    unfolding float_mul_def base_ppr_per_10k_def using q by (intro to_double_small) simp
  have e3: "float_mul ?p1 heat = Some ?p2"
    unfolding float_mul_def using p1 heat \<open>?p1 * heat \<le> 225 * 4\<close>
    by (intro to_double_small) (simp add: abs_mult)
  have e4: "float_mul ?p2 vm = Some ?p3"
    unfolding float_mul_def using p2 v \<open>?p2 * vm \<le> 900 * 2\<close>
    by (intro to_double_small) (simp add: abs_mult)
  have "total_patients att heat vm = Some (float_to_int ?p3)"
    by (simp only: total_patients_def e1 e2 e3 e4 Option.bind.bind_lunit)
  moreover have "float_to_int ?p3 = \<lfloor>?p3\<rfloor>" using p3 by (simp add: float_to_int_def)
  moreover have "15 \<le> \<lfloor>?p3\<rfloor>" "\<lfloor>?p3\<rfloor> \<le> 1800" using p3 by (simp_all add: le_floor_iff floor_le_iff)
  ultimately show ?thesis by simp
qed

section \<open>The allocation buckets\<close>

lemma mod_five: "5 * (a::int) mod 100 = 5 * (a mod 20)"
  using mult_mod_right [of 5 a 20] by simp

lemma div_hundred_le: "100 * (a div 100) \<le> (a::int)"
proof -
  have "a = 100 * (a div 100) + a mod 100" by (simp only: mult_div_mod_eq)
  moreover have "0 \<le> a mod 100" by simp
  ultimately show ?thesis by linarith
qed

lemma mod65: "65 * (n::int) \<le> 100 * (65 * n div 100) + 95"
proof -
  have "65 * n mod 100 = 5 * (13 * n mod 20)" using mod_five [of "13 * n"] by simp
  moreover have "13 * n mod 20 < 20" by simp
  ultimately have "65 * n mod 100 \<le> 95" by linarith
  moreover have "65 * n = 100 * (65 * n div 100) + 65 * n mod 100" by (simp only: mult_div_mod_eq)
  ultimately show ?thesis by linarith
qed

lemma mod15_hi: "15 * (n::int) \<le> 100 * (15 * n div 100) + 95"
proof -
  have "15 * n mod 100 = 5 * (3 * n mod 20)" using mod_five [of "3 * n"] by simp
  moreover have "3 * n mod 20 < 20" by simp
  ultimately have "15 * n mod 100 \<le> 95" by linarith
  moreover have "15 * n = 100 * (15 * n div 100) + 15 * n mod 100" by (simp only: mult_div_mod_eq)
  ultimately show ?thesis by linarith
qed

lemma mod15_lo:
  assumes "15 * (n::int) mod 100 \<noteq> 0"
  shows "100 * (15 * n div 100) + 5 \<le> 15 * n"
proof -
  have e: "15 * n mod 100 = 5 * (3 * n mod 20)" using mod_five [of "3 * n"] by simp
  have "0 \<le> 3 * n mod 20" by simp
  moreover have "3 * n mod 20 \<noteq> 0" using assms e by simp
  ultimately have "5 \<le> 15 * n mod 100" using e by linarith
  moreover have "15 * n = 100 * (15 * n div 100) + 15 * n mod 100" by (simp only: mult_div_mod_eq)
  ultimately show ?thesis by linarith
qed

lemma mod15_zero:
  assumes "15 * (n::int) mod 100 = 0"
  shows "\<exists>j. n = 20 * j"
proof -
  have "5 * (3 * n mod 20) = 0" using assms mod_five [of "3 * n"] by simp
  then have "3 * n mod 20 = 0" by simp
  then have "20 dvd 3 * n" by (simp add: dvd_eq_mod_eq_0)
  then have "20 dvd 7 * (3 * n)" by (rule dvd_mult)
  moreover have "7 * (3 * n) = 20 * n + n" by simp
  ultimately have "20 dvd 20 * n + n" by simp
  then have "20 dvd n" by (simp only: dvd_add_right_iff dvd_triv_left)
  then show ?thesis by (auto simp: dvd_def)
qed

lemma rne_near:
  assumes "of_int K - 1 / 2 < y" "y < of_int K + 1 / 2"
  shows "rne y = K"
proof (cases "of_int K \<le> y")
  case True
  then have "\<lfloor>y\<rfloor> = K" using assms by (intro floor_unique) simp_all
  then show ?thesis using assms by (simp add: rne_def Let_def)
next
  case False
  then have "\<lfloor>y\<rfloor> = K - 1" using assms by (intro floor_unique) simp_all
  then show ?thesis using assms False by (simp add: rne_def Let_def)
qed

lemma int_to_float_exact:
  assumes "\<bar>n\<bar> < 2 ^ 53"
  shows "int_to_float n = Some (of_int n)"
proof -
  have "\<bar>n\<bar> \<le> 2 ^ 53" using assms by simp
  then have "(of_int \<bar>n\<bar> :: rat) \<le> of_int (2 ^ 53)" by (simp only: of_int_le_iff)
  then have "\<bar>of_int n :: rat\<bar> \<le> 2 ^ 1023" by simp
  then have "to_double (of_int n) = Some (rnd (of_int n))" by (rule to_double_small)
  then show ?thesis unfolding int_to_float_def by (simp only: rnd_of_int [OF assms])
qed

lemma float_to_int_floor:
  assumes "of_int k \<le> y" "y < of_int k + 1" "0 \<le> k"
  shows "float_to_int y = k"
proof -
  have "(0::rat) \<le> of_int k" using assms(3) by simp
  then have "0 \<le> y" using assms(1) by linarith
  moreover have "\<lfloor>y\<rfloor> = k" using assms(1,2) by (intro floor_unique) simp_all
  ultimately show ?thesis by (simp add: float_to_int_def)
qed

lemma rnd_error_nonneg:
  assumes "0 \<le> x"
  shows "x - x / 2 ^ 53 \<le> rnd x" "rnd x \<le> x + x / 2 ^ 53"
proof -
  have e: "\<bar>rnd x - x\<bar> \<le> \<bar>x\<bar> / 2 ^ 53" by (rule rnd_error)
  have "\<bar>x\<bar> = x" using assms by simp
  with e have "\<bar>rnd x - x\<bar> \<le> x / 2 ^ 53" by (simp only:)
  then show "x - x / 2 ^ 53 \<le> rnd x" "rnd x \<le> x + x / 2 ^ 53" by linarith+
qed

lemma onsite_treat_floor:
  assumes "0 \<le> n" "n \<le> 10 ^ 12"
  shows "onsite_treat n = Some (65 * n div 100)"
proof -
  define k where "k = 65 * n div 100"
  define x :: rat where "x = of_int n * (5854679515581645 / 9007199254740992)"
  define y where "y = rnd x"
  have "(of_int n :: rat) \<le> of_int (10 ^ 12)" using assms(2) by (simp only: of_int_le_iff)
  then have n: "(0::rat) \<le> of_int n" "(of_int n :: rat) \<le> 10 ^ 12"
    using assms(1) by simp_all
  have xn: "x * 9007199254740992 = of_int n * 5854679515581645" by (simp add: x_def)
  have x0: "0 \<le> x" using n by (simp add: x_def)
  have conv: "int_to_float n = Some (of_int n)" using assms by (intro int_to_float_exact) simp
  have "(of_int n :: rat) \<le> 1000000000000" using n(2) by simp
  then have "x \<le> 1000000000000" using xn n(1) by linarith
  then have "\<bar>x\<bar> \<le> 2 ^ 1023" using x0 by simp
  then have mul: "float_mul (of_int n) (5854679515581645 / 9007199254740992) = Some y"
    unfolding float_mul_def y_def x_def by (rule to_double_small)
  have k1: "100 * k \<le> 65 * n" "65 * n \<le> 100 * k + 95"
    unfolding k_def by (rule div_hundred_le, rule mod65)
  have "(of_int (100 * k) :: rat) \<le> of_int (65 * n)" "(of_int (65 * n) :: rat) \<le> of_int (100 * k + 95)"
    using k1 by (simp_all only: of_int_le_iff)
  then have k1r: "100 * (of_int k :: rat) \<le> 65 * of_int n" "65 * (of_int n :: rat) \<le> 100 * of_int k + 95"
    by simp_all
  have kpos: "0 \<le> k" using assms(1) by (simp add: k_def pos_imp_zdiv_nonneg_iff)
  have "k \<le> 65 * n" using k1(1) kpos by linarith
  then have "\<bar>k\<bar> < 2 ^ 53" using kpos assms(2) by simp
  then have kfix: "rnd (of_int k) = of_int k" by (rule rnd_of_int)
  have "of_int k \<le> x" using k1r(1) xn n by linarith
  then have "rnd (of_int k) \<le> rnd x" by (rule rnd_mono)
  then have lo: "of_int k \<le> y" by (simp only: kfix y_def)
  have "y \<le> x + x / 2 ^ 53" unfolding y_def using x0 by (rule rnd_error_nonneg)
  then have "y \<le> x + x / 9007199254740992" by simp
  moreover have "(of_int n :: rat) \<le> 1000000000000" using n(2) by simp
  ultimately have hi: "y < of_int k + 1" using k1r(2) xn n(1) by linarith
  have "float_to_int y = k" using lo hi kpos by (rule float_to_int_floor)
  then show ?thesis
    by (simp only: onsite_treat_def lit_065 conv mul Option.bind.bind_lunit k_def)
qed

lemma acs_round_multiple:
  assumes "0 \<le> j" "j \<le> 10 ^ 12"
  shows "rnd (of_int j * (27021597764222975 / 9007199254740992)) = 3 * of_int j"
proof (cases "j = 0")
  case True
  then show ?thesis by (simp add: rnd_zero)
next
  case False
  then have j1: "1 \<le> j" using assms by simp
  define x :: rat where "x = of_int j * (27021597764222975 / 9007199254740992)"
  have "(of_int j :: rat) \<le> of_int (10 ^ 12)" using assms(2) by (simp only: of_int_le_iff)
  then have jr: "(1::rat) \<le> of_int j" "(of_int j :: rat) \<le> 1000000000000"
    using j1 by simp_all
  have xj: "x * 9007199254740992 = of_int j * 27021597764222975" by (simp add: x_def)
  have xpos: "0 < x" using jr xj by linarith
  define e where "e = ilog2 x"
  define P where "P = (2::rat) powi e"
  have b: "P \<le> x" "x < 2 * P"
    using ilog2_bounds [OF xpos] by (simp_all add: e_def P_def pow2_split)
  have Ppos: "0 < P" by (simp add: P_def)
  have "x < 9007199254740992" using xj jr by linarith
  then have "P < 2 powi 53" using b(1) by simp
  then have "e < 53" unfolding P_def by (simp only: pow2_less_iff)
  then have e52: "e \<le> 52" by simp
  have s: "(2::rat) powi (e - 52) = P / 4503599627370496" by (simp add: pow2_diff P_def)
  define K where "K = 3 * j * 2 ^ nat (52 - e)"
  have "(2::rat) ^ nat (52 - e) = 2 powi (52 - e)" using e52 by (simp add: power_int_def)
  also have "\<dots> = 4503599627370496 / P" by (simp add: pow2_diff P_def)
  finally have Kr: "(of_int K :: rat) = 3 * of_int j * (4503599627370496 / P)" by (simp add: K_def)
  have jP: "of_int j < P" using b(2) jr xj by linarith
  have "x = 3 * of_int j - of_int j / 9007199254740992" using xj by simp
  then have q: "x / (P / 4503599627370496) = of_int K - of_int j / (2 * P)"
    unfolding Kr using Ppos by (simp add: field_simps)
  have "0 < of_int j / (2 * P)" "of_int j / (2 * P) < 1 / 2"
    using jr jP Ppos by (simp_all add: field_simps)
  then have "rne (x / (P / 4503599627370496)) = K" unfolding q by (intro rne_near) simp_all
  moreover have "rnd x = of_int (rne (x / 2 powi (e - 52))) * 2 powi (e - 52)"
    using ilog2_bounds [OF xpos] unfolding e_def by (rule rnd_binade)
  ultimately have "rnd x = of_int K * (P / 4503599627370496)" by (simp only: s)
  also have "\<dots> = 3 * of_int j" unfolding Kr using Ppos by simp
  finally show ?thesis unfolding x_def .
qed

lemma acs_telehealth_floor:
  assumes "0 \<le> n" "n \<le> 10 ^ 12"
  shows "acs_telehealth n = Some (15 * n div 100)"
proof -
  define k where "k = 15 * n div 100"
  define x :: rat where "x = of_int n * (5404319552844595 / 36028797018963968)"
  define y where "y = rnd x"
  have "(of_int n :: rat) \<le> of_int (10 ^ 12)" using assms(2) by (simp only: of_int_le_iff)
  then have n: "(0::rat) \<le> of_int n" "(of_int n :: rat) \<le> 1000000000000"
    using assms(1) by simp_all
  have xn: "x * 36028797018963968 = of_int n * 5404319552844595" by (simp add: x_def)
  have x0: "0 \<le> x" using n by (simp add: x_def)
  have conv: "int_to_float n = Some (of_int n)" using assms by (intro int_to_float_exact) simp
  have "x \<le> 1000000000000" using xn n by linarith
  then have "\<bar>x\<bar> \<le> 2 ^ 1023" using x0 by simp
  then have mul: "float_mul (of_int n) (5404319552844595 / 36028797018963968) = Some y"
    unfolding float_mul_def y_def x_def by (rule to_double_small)
  have k1: "100 * k \<le> 15 * n" "15 * n \<le> 100 * k + 95"
    unfolding k_def by (rule div_hundred_le, rule mod15_hi)
  have "(of_int (100 * k) :: rat) \<le> of_int (15 * n)" "(of_int (15 * n) :: rat) \<le> of_int (100 * k + 95)"
    using k1 by (simp_all only: of_int_le_iff)
  then have k1r: "100 * (of_int k :: rat) \<le> 15 * of_int n" "15 * (of_int n :: rat) \<le> 100 * of_int k + 95"
    by simp_all
  have kpos: "0 \<le> k" using assms(1) by (simp add: k_def pos_imp_zdiv_nonneg_iff)
  have "y \<le> x + x / 2 ^ 53" unfolding y_def using x0 by (rule rnd_error_nonneg)
  then have "y \<le> x + x / 9007199254740992" by simp
  then have hi: "y < of_int k + 1" using k1r(2) xn n by linarith
  have lo: "of_int k \<le> y"
  proof (cases "15 * n mod 100 = 0")
    case True
    from mod15_zero [OF True] obtain j where j: "n = 20 * j" by auto
    have k3: "k = 3 * j" unfolding k_def j by simp
    have "0 \<le> j" "j \<le> 10 ^ 12" using assms j by simp_all
    then have r: "rnd (of_int j * (27021597764222975 / 9007199254740992)) = 3 * of_int j"
      by (rule acs_round_multiple)
    have xe: "x = of_int j * (27021597764222975 / 9007199254740992)"
      unfolding x_def j by simp
    have "y = 3 * of_int j" unfolding y_def xe by (rule r)
    then show ?thesis unfolding k3 by simp
  next
    case False
    then have "100 * k + 5 \<le> 15 * n" unfolding k_def by (rule mod15_lo)
    then have "(of_int (100 * k + 5) :: rat) \<le> of_int (15 * n)" by (simp only: of_int_le_iff)
    then have "100 * (of_int k :: rat) + 5 \<le> 15 * of_int n" by simp
    moreover have "x - x / 2 ^ 53 \<le> y" unfolding y_def using x0 by (rule rnd_error_nonneg)
    then have "x - x / 9007199254740992 \<le> y" by simp
    ultimately show ?thesis using xn n by linarith
  qed
  have "float_to_int y = k" using lo hi kpos by (rule float_to_int_floor)
  then show ?thesis
    by (simp only: acs_telehealth_def lit_015 conv mul Option.bind.bind_lunit k_def)
qed

section \<open>The severity score\<close>

lemma raw_double_mono: "a \<le> b \<Longrightarrow> raw_double a \<le> raw_double b"
proof -
  assume "a \<le> b"
  then have "(of_int a :: rat) / 80 \<le> of_int b / 80" by (simp add: divide_right_mono)
  then have "rnd (of_int a / 80) * 60 \<le> rnd (of_int b / 80) * 60"
    by (intro mult_right_mono rnd_mono) simp_all
  then have "80 + rnd (rnd (of_int a / 80) * 60) \<le> 80 + rnd (rnd (of_int b / 80) * 60)"
    by (intro add_left_mono rnd_mono)
  then show ?thesis unfolding raw_double_def by (rule rnd_mono)
qed

lemma raw_double_0: "raw_double 0 = 80"
  by (simp add: raw_double_def rnd_zero rnd_numeral)

lemma raw_double_3: "raw_double 3 = 329 / 4"
  unfolding raw_double_def by code_simp


lemma nedocs_chain:
  assumes "0 \<le> ed" "ed \<le> 10 ^ 12"
  shows "nedocs_raw ed = Some (raw_double ed)"
    and "nedocs_score ed = Some (min \<lfloor>raw_double ed\<rfloor> 200)"
    and "80 \<le> raw_double ed"
proof -
  define q where "q = rnd (of_int ed / 80 :: rat)"
  define p where "p = rnd (q * 60)"
  have "(of_int ed :: rat) \<le> of_int (10 ^ 12)" using assms(2) by (simp only: of_int_le_iff)
  then have e: "(0::rat) \<le> of_int ed / 80" "(of_int ed :: rat) / 80 \<le> 2 ^ 40"
    using assms(1) by simp_all
  have q: "0 \<le> q" "q \<le> 2 ^ 40"
    unfolding q_def using rnd_nonneg [OF e(1)] rnd_abs_le_pow2 [of "of_int ed / 80" 40] e
    by (simp_all add: abs_le_iff)
  have "0 \<le> q * 60" "q * 60 \<le> 2 ^ 46" using q by simp_all
  then have p: "0 \<le> p" "p \<le> 2 ^ 46"
    unfolding p_def using rnd_nonneg [of "q * 60"] rnd_abs_le_pow2 [of "q * 60" 46]
    by (simp_all add: abs_le_iff)
  have e1: "int_truediv ed BASELINE_ED_CAPACITY = Some q"
    unfolding int_truediv_def BASELINE_ED_CAPACITY_def q_def
    using to_double_small [of "of_int ed / 80"] e by simp
  have e2: "float_mul q 60 = Some p"
    unfolding float_mul_def p_def using \<open>0 \<le> q * 60\<close> \<open>q * 60 \<le> 2 ^ 46\<close>
    by (intro to_double_small) simp
  have e3: "float_add 80 p = Some (rnd (80 + p))"
    unfolding float_add_def using p by (intro to_double_small) simp
  have sb: "surge_burden ed = Some p"
    by (simp only: surge_burden_def e1 e2 Option.bind.bind_lunit)
  have r: "raw_double ed = rnd (80 + p)" by (simp only: raw_double_def p_def q_def)
  show raw: "nedocs_raw ed = Some (raw_double ed)"
    by (simp only: nedocs_raw_def sb e3 r Option.bind.bind_lunit)
  have "rnd 80 \<le> rnd (80 + p)" using p by (intro rnd_mono) simp
  then show ge: "80 \<le> raw_double ed" unfolding r by (simp add: rnd_numeral)
  then have "float_to_int (raw_double ed) = \<lfloor>raw_double ed\<rfloor>" by (simp add: float_to_int_def)
  then show "nedocs_score ed = Some (min \<lfloor>raw_double ed\<rfloor> 200)"
    by (simp only: nedocs_score_def raw Option.bind.bind_lunit)
qed

lemma alert_banner_chain:
  "alert_banner t score =
     Some (if 98 \<le> t then Override
           else if 140 \<le> score then Critical
           else if 133 \<le> score then Warning
           else Normal)"
  by (simp add: alert_banner_def warning_threshold_value CRITICAL_NEDOCS_THRESHOLD_def)

lemma remainder_lo: "100 * a \<le> 65 * n \<Longrightarrow> 100 * b \<le> 15 * n \<Longrightarrow> (n::int) \<le> 5 * (n - a - b)"
proof -
  assume "100 * a \<le> 65 * n" "100 * b \<le> 15 * n"
  then have "20 * (5 * a + 5 * b) \<le> 20 * (4 * n)" by simp
  then have "5 * a + 5 * b \<le> 4 * n" by (simp only: mult_le_cancel_left_pos)
  then show ?thesis by simp
qed

lemma remainder_hi: "65 * n \<le> 100 * a + 95 \<Longrightarrow> 15 * n \<le> 100 * b + 95 \<Longrightarrow> 5 * (n - a - b) \<le> (n::int) + 9"
proof -
  assume h: "65 * n \<le> 100 * a + 95" "15 * n \<le> 100 * b + 95"
  have "4 * n < 5 * a + 5 * b + 10"
  proof (rule ccontr)
    assume "\<not> 4 * n < 5 * a + 5 * b + 10"
    then have "5 * a + 5 * b + 10 \<le> 4 * n" by simp
    then have "20 * (5 * a + 5 * b + 10) \<le> 20 * (4 * n)" by (simp only: mult_le_cancel_left_pos)
    then show False using h by simp
  qed
  then show ?thesis by simp
qed

lemma ed_transports_bounds:
  assumes "0 \<le> n"
  shows "n \<le> 5 * ed_transports n (65 * n div 100) (15 * n div 100)"
    and "5 * ed_transports n (65 * n div 100) (15 * n div 100) \<le> n + 9"
proof -
  define a where "a = 65 * n div 100"
  define b where "b = 15 * n div 100"
  have a: "100 * a \<le> 65 * n" "65 * n \<le> 100 * a + 95"
    unfolding a_def by (rule div_hundred_le, rule mod65)
  have b: "100 * b \<le> 15 * n" "15 * n \<le> 100 * b + 95"
    unfolding b_def by (rule div_hundred_le, rule mod15_hi)
  show "n \<le> 5 * ed_transports n (65 * n div 100) (15 * n div 100)"
    unfolding ed_transports_def a_def [symmetric] b_def [symmetric] using a(1) b(1) by (rule remainder_lo)
  show "5 * ed_transports n (65 * n div 100) (15 * n div 100) \<le> n + 9"
    unfolding ed_transports_def a_def [symmetric] b_def [symmetric] using a(2) b(2) by (rule remainder_hi)
qed

section \<open>A whole run on the ranges of the controls\<close>

lemma surge_radar_valid:
  assumes "valid_input inp"
  shows "\<exists>tp ed. 15 \<le> tp \<and> tp \<le> 1800 \<and>
           ed = ed_transports tp (65 * tp div 100) (15 * tp div 100) \<and>
           total_patients (attendance inp) (heat_double (temp inp) (humidity inp))
             (venue_multiplier (venue_type inp)) = Some tp \<and>
           surge_radar inp =
             Some \<lparr> envMultiplier = heat_double (temp inp) (humidity inp),
                    venueMultiplier = venue_multiplier (venue_type inp),
                    totalPatients = tp,
                    onSite = 65 * tp div 100,
                    deflected = 15 * tp div 100,
                    edTransports = ed,
                    nedocsScoreRaw = raw_double ed,
                    nedocsScoreCapped = min \<lfloor>raw_double ed\<rfloor> 200,
                    tier = banner_for (temp inp) (min \<lfloor>raw_double ed\<rfloor> 200) \<rparr>"
proof -
  let ?t = "temp inp" and ?h = "humidity inp" and ?vm = "venue_multiplier (venue_type inp)"
  from assms have dom: "10000 \<le> attendance inp" "attendance inp \<le> 150000"
    "60 \<le> ?t" "?t \<le> 120" "10 \<le> ?h" "?h \<le> 100"
    by (simp_all add: valid_input_def)
  have "\<bar>?t - 85\<bar> \<le> 2 ^ 1023" "\<bar>?h - 60\<bar> \<le> 2 ^ 1023" using dom by simp_all
  then have hm: "heat_index_multiplier ?t ?h = Some (heat_double ?t ?h)"
    unfolding heat_double_def by (rule heat_index_multiplier_value)
  have hb: "1 \<le> heat_double ?t ?h" "heat_double ?t ?h \<le> 4"
    unfolding heat_double_def using dom by (simp_all add: heat_formula_ge_one heat_formula_le)
  have vm: "?vm = 1 \<or> ?vm = 2" by (simp add: venue_multiplier_def)
  from total_patients_bounds [OF dom(1,2) hb vm]
  obtain tp where tp: "total_patients (attendance inp) (heat_double ?t ?h) ?vm = Some tp"
    "15 \<le> tp" "tp \<le> 1800" by blast
  have r: "0 \<le> tp" "tp \<le> 10 ^ 12" using tp by simp_all
  note os = onsite_treat_floor [OF r] and acs = acs_telehealth_floor [OF r]
  define ed where "ed = ed_transports tp (65 * tp div 100) (15 * tp div 100)"
  have "tp \<le> 5 * ed" "5 * ed \<le> tp + 9"
    unfolding ed_def using r(1) by (rule ed_transports_bounds)+
  then have e: "0 \<le> ed" "ed \<le> 10 ^ 12" using tp by simp_all
  note sc = nedocs_chain [OF e]
  have ab: "alert_banner ?t (min \<lfloor>raw_double ed\<rfloor> 200) =
      Some (banner_for ?t (min \<lfloor>raw_double ed\<rfloor> 200))"
    unfolding banner_for_def by (rule alert_banner_chain)
  have "surge_radar inp =
             Some \<lparr> envMultiplier = heat_double ?t ?h,
                    venueMultiplier = ?vm,
                    totalPatients = tp,
                    onSite = 65 * tp div 100,
                    deflected = 15 * tp div 100,
                    edTransports = ed,
                    nedocsScoreRaw = raw_double ed,
                    nedocsScoreCapped = min \<lfloor>raw_double ed\<rfloor> 200,
                    tier = banner_for ?t (min \<lfloor>raw_double ed\<rfloor> 200) \<rparr>"
    by (simp only: surge_radar_def hm tp(1) os acs ed_def [symmetric] sc(1,2) ab
        Option.bind.bind_lunit)
  then show ?thesis using tp ed_def by blast
qed

lemma floor_percent: "\<lfloor>(of_int c / 100 :: rat) * of_int n\<rfloor> = c * n div 100"
proof -
  have "(of_int c / 100 :: rat) * of_int n = of_int (c * n) / of_int 100" by simp
  then show ?thesis by (simp only: floor_divide_of_int_eq)
qed

lemma raw_double_ge_80: "0 \<le> ed \<Longrightarrow> 80 \<le> raw_double ed"
  using raw_double_mono [of 0 ed] by (simp add: raw_double_0)

lemma total_patients_SomeD:
  assumes "total_patients a hm vm = Some n"
  shows "n = float_to_int (rnd (rnd (rnd (rnd (of_int a / 10000) * 15) * hm) * vm))"
  using assms
  by (auto simp add: total_patients_def bind_eq_Some_conv int_truediv_def float_mul_def
      base_ppr_per_10k_def dest!: to_double_SomeD)

lemma total_patients_mono:
  assumes "total_patients a1 hm vm = Some n1" "total_patients a2 hm vm = Some n2"
    and "a1 \<le> a2" "0 \<le> hm" "0 \<le> vm"
  shows "n1 \<le> n2"
proof -
  have "(of_int a1 :: rat) / 10000 \<le> of_int a2 / 10000"
    using assms(3) by (simp add: divide_right_mono)
  then have "rnd (of_int a1 / 10000) \<le> rnd (of_int a2 / 10000)" by (rule rnd_mono)
  then have "rnd (of_int a1 / 10000) * 15 \<le> rnd (of_int a2 / 10000) * 15" by simp
  then have "rnd (rnd (of_int a1 / 10000) * 15) \<le> rnd (rnd (of_int a2 / 10000) * 15)"
    by (rule rnd_mono)
  then have "rnd (rnd (of_int a1 / 10000) * 15) * hm \<le> rnd (rnd (of_int a2 / 10000) * 15) * hm"
    using assms(4) by (rule mult_right_mono)
  then have "rnd (rnd (rnd (of_int a1 / 10000) * 15) * hm)
      \<le> rnd (rnd (rnd (of_int a2 / 10000) * 15) * hm)"
    by (rule rnd_mono)
  then have "rnd (rnd (rnd (of_int a1 / 10000) * 15) * hm) * vm
      \<le> rnd (rnd (rnd (of_int a2 / 10000) * 15) * hm) * vm"
    using assms(5) by (rule mult_right_mono)
  then have "rnd (rnd (rnd (rnd (of_int a1 / 10000) * 15) * hm) * vm)
      \<le> rnd (rnd (rnd (rnd (of_int a2 / 10000) * 15) * hm) * vm)"
    by (rule rnd_mono)
  then have "float_to_int (rnd (rnd (rnd (rnd (of_int a1 / 10000) * 15) * hm) * vm))
      \<le> float_to_int (rnd (rnd (rnd (rnd (of_int a2 / 10000) * 15) * hm) * vm))"
    by (rule float_to_int_mono)
  then show ?thesis
    using total_patients_SomeD [OF assms(1)] total_patients_SomeD [OF assms(2)] by simp
qed

lemma heat_index_multiplier_ge_one:
  assumes "heat_index_multiplier t h = Some m"
  shows "1 \<le> m"
proof -
  from assms obtain a b where m: "m = rnd (rnd (1 + max 0 a) + max 0 b)"
    by (auto simp add: heat_index_multiplier_def bind_eq_Some_conv float_add_def
        dest!: to_double_SomeD)
  have "rnd 1 \<le> rnd (1 + max 0 a)" by (intro rnd_mono) simp
  then have "1 \<le> rnd (1 + max 0 a) + max 0 b" by (simp add: rnd_one)
  then have "rnd 1 \<le> rnd (rnd (1 + max 0 a) + max 0 b)" by (rule rnd_mono)
  then show ?thesis unfolding m by (simp add: rnd_one)
qed


section \<open>The surge burden of a multiple of four\<close>










section \<open>Distance from exact arithmetic\<close>









section \<open>Claims\<close>

text \<open>
  C1. For every input in the ranges of the sidebar controls the three buckets add up to the
  total exactly; the on-site bucket is the floor of 65 percent of the total, the deflected
  bucket the floor of 15 percent, and the transport bucket is the remainder.
\<close>

theorem allocation_partition:
  assumes "valid_input inp"
  shows "\<exists>out. surge_radar inp = Some out \<and>
           onSite out + deflected out + edTransports out = totalPatients out \<and>
           onSite out = \<lfloor>(65 / 100 :: rat) * of_int (totalPatients out)\<rfloor> \<and>
           deflected out = \<lfloor>(15 / 100 :: rat) * of_int (totalPatients out)\<rfloor> \<and>
           edTransports out = totalPatients out - onSite out - deflected out"
proof -
  from surge_radar_valid [OF assms] obtain tp ed out where
    ed: "ed = ed_transports tp (65 * tp div 100) (15 * tp div 100)" and
    out: "surge_radar inp = Some out" "totalPatients out = tp" "onSite out = 65 * tp div 100"
      "deflected out = 15 * tp div 100" "edTransports out = ed"
    by fastforce
  have f65: "\<lfloor>(65 / 100 :: rat) * of_int tp\<rfloor> = 65 * tp div 100"
    using floor_percent [of 65 tp] by simp
  have f15: "\<lfloor>(15 / 100 :: rat) * of_int tp\<rfloor> = 15 * tp div 100"
    using floor_percent [of 15 tp] by simp
  have "onSite out + deflected out + edTransports out = totalPatients out"
    "edTransports out = totalPatients out - onSite out - deflected out"
    unfolding out ed ed_transports_def by simp_all
  moreover have "onSite out = \<lfloor>(65 / 100 :: rat) * of_int (totalPatients out)\<rfloor>"
    "deflected out = \<lfloor>(15 / 100 :: rat) * of_int (totalPatients out)\<rfloor>"
    unfolding out by (simp_all only: f65 f15)
  ultimately show ?thesis using out(1) by blast
qed

theorem allocation_partition_witness:
  "valid_input \<lparr> attendance = 65000, temp = 85, humidity = 60, venue_type = Stadium_Bounded \<rparr> \<and>
   (\<exists>out. surge_radar \<lparr> attendance = 65000, temp = 85, humidity = 60, venue_type = Stadium_Bounded \<rparr> = Some out \<and>
           onSite out + deflected out + edTransports out = totalPatients out \<and>
           onSite out = \<lfloor>(65 / 100 :: rat) * of_int (totalPatients out)\<rfloor> \<and>
           deflected out = \<lfloor>(15 / 100 :: rat) * of_int (totalPatients out)\<rfloor> \<and>
           edTransports out = totalPatients out - onSite out - deflected out)"
proof -
  have v: "valid_input \<lparr> attendance = 65000, temp = 85, humidity = 60, venue_type = Stadium_Bounded \<rparr>"
    by (simp add: valid_input_def)
  from v allocation_partition [OF v] show ?thesis by (rule conjI)
qed



text \<open>
  C3. For every input in the ranges of the sidebar controls the capped score is an integer
  between 0 and 200.
\<close>

theorem capped_score_range:
  assumes "valid_input inp"
  shows "\<exists>out. surge_radar inp = Some out \<and>
           0 \<le> nedocsScoreCapped out \<and> nedocsScoreCapped out \<le> 200"
proof -
  from surge_radar_valid [OF assms] obtain tp ed out where
    tp: "15 \<le> tp" and
    ed: "ed = ed_transports tp (65 * tp div 100) (15 * tp div 100)" and
    out: "surge_radar inp = Some out" "nedocsScoreCapped out = min \<lfloor>raw_double ed\<rfloor> 200"
    by fastforce
  have "tp \<le> 5 * ed" unfolding ed using tp by (intro ed_transports_bounds) simp
  then have "80 \<le> raw_double ed" using tp by (intro raw_double_ge_80) simp
  then have "80 \<le> \<lfloor>raw_double ed\<rfloor>" by (simp add: le_floor_iff)
  then have "0 \<le> nedocsScoreCapped out" "nedocsScoreCapped out \<le> 200"
    unfolding out by simp_all
  then show ?thesis using out(1) by blast
qed

theorem capped_score_range_witness:
  "valid_input \<lparr> attendance = 10000, temp = 60, humidity = 10, venue_type = Stadium_Bounded \<rparr> \<and>
   (\<exists>out. surge_radar \<lparr> attendance = 10000, temp = 60, humidity = 10, venue_type = Stadium_Bounded \<rparr> = Some out \<and>
           0 \<le> nedocsScoreCapped out \<and> nedocsScoreCapped out \<le> 200)"
proof -
  have v: "valid_input \<lparr> attendance = 10000, temp = 60, humidity = 10, venue_type = Stadium_Bounded \<rparr>"
    by (simp add: valid_input_def)
  from v capped_score_range [OF v] show ?thesis by (rule conjI)
qed









text \<open>
  C7. At attendance 65000, 85 degrees, 60 percent humidity and the bounded venue the script
  computes environmental multiplier 1.0, venue multiplier 1.0, 97 patients, 63 treated on
  site, 14 deflected, 20 transported, raw and capped score 95, and the normal banner.
\<close>

theorem scenario_one:
  "surge_radar \<lparr> attendance = 65000, temp = 85, humidity = 60, venue_type = Stadium_Bounded \<rparr> =
     Some \<lparr> envMultiplier = 1, venueMultiplier = 1, totalPatients = 97, onSite = 63,
            deflected = 14, edTransports = 20, nedocsScoreRaw = 95, nedocsScoreCapped = 95,
            tier = Normal \<rparr>"
  by code_simp

text \<open>
  C8. Two runs that agree on temperature, humidity and venue: the run with the larger
  attendance never reports fewer patients.
\<close>

theorem total_patients_monotone:
  assumes "surge_radar i1 = Some o1" "surge_radar i2 = Some o2"
    and "temp i1 = temp i2" "humidity i1 = humidity i2" "venue_type i1 = venue_type i2"
    and "attendance i1 \<le> attendance i2"
  shows "totalPatients o1 \<le> totalPatients o2"
proof -
  from assms(1) obtain hm where
    hm: "heat_index_multiplier (temp i1) (humidity i1) = Some hm" and
    t1: "total_patients (attendance i1) hm (venue_multiplier (venue_type i1)) = Some (totalPatients o1)"
    by (auto simp add: surge_radar_def bind_eq_Some_conv)
  from assms(2) obtain hm' where
    hm': "heat_index_multiplier (temp i2) (humidity i2) = Some hm'" and
    t2: "total_patients (attendance i2) hm' (venue_multiplier (venue_type i2)) = Some (totalPatients o2)"
    by (auto simp add: surge_radar_def bind_eq_Some_conv)
  have eq: "hm' = hm" using hm hm' assms(3,4) by simp
  have "0 \<le> hm" using heat_index_multiplier_ge_one [OF hm] by simp
  moreover have "0 \<le> venue_multiplier (venue_type i1)" by (simp add: venue_multiplier_def)
  ultimately show ?thesis
    using total_patients_mono [OF t1 t2 [unfolded eq assms(5) [symmetric]] assms(6)] by simp
qed

theorem total_patients_monotone_witness:
  "\<exists>o1 o2.
     surge_radar \<lparr> attendance = 65000, temp = 90, humidity = 70, venue_type = Stadium_Bounded \<rparr> = Some o1 \<and>
     surge_radar \<lparr> attendance = 70000, temp = 90, humidity = 70, venue_type = Stadium_Bounded \<rparr> = Some o2 \<and>
     totalPatients o1 \<le> totalPatients o2"
proof -
  let ?i1 = "\<lparr> attendance = 65000, temp = 90, humidity = 70, venue_type = Stadium_Bounded \<rparr>"
  let ?i2 = "\<lparr> attendance = 70000, temp = 90, humidity = 70, venue_type = Stadium_Bounded \<rparr>"
  have "valid_input ?i1" "valid_input ?i2" by (simp_all add: valid_input_def)
  then obtain o1 o2 where o: "surge_radar ?i1 = Some o1" "surge_radar ?i2 = Some o2"
    using surge_radar_valid by blast
  from total_patients_monotone [OF o] have "totalPatients o1 \<le> totalPatients o2" by simp
  with o show ?thesis by blast
qed

text \<open>
  C9. For every input in the ranges of the sidebar controls the capped score is at least 80:
  the baseline of 80 is always added and the surge burden is never negative. At least
  three patients are transported, so the score is in fact at least 82 and never lies in
  the band from 0 to 80 of the gauge.
\<close>

theorem capped_score_above_baseline:
  assumes "valid_input inp"
  shows "\<exists>out. surge_radar inp = Some out \<and>
           80 \<le> nedocsScoreCapped out \<and> 82 \<le> nedocsScoreCapped out \<and>
           3 \<le> edTransports out"
proof -
  from surge_radar_valid [OF assms] obtain tp ed out where
    tp: "15 \<le> tp" and
    ed: "ed = ed_transports tp (65 * tp div 100) (15 * tp div 100)" and
    out: "surge_radar inp = Some out" "nedocsScoreCapped out = min \<lfloor>raw_double ed\<rfloor> 200"
      "edTransports out = ed"
    by fastforce
  have "tp \<le> 5 * ed" unfolding ed using tp by (intro ed_transports_bounds) simp
  then have e3: "3 \<le> ed" using tp by simp
  then have "raw_double 3 \<le> raw_double ed" by (rule raw_double_mono)
  then have "82 \<le> \<lfloor>raw_double ed\<rfloor>" by (simp add: raw_double_3 le_floor_iff)
  then have "82 \<le> nedocsScoreCapped out" unfolding out by simp
  then show ?thesis using out(1,3) e3 by auto
qed

theorem capped_score_above_baseline_witness:
  "valid_input \<lparr> attendance = 150000, temp = 120, humidity = 100, venue_type = Fan_Zone_Unbounded \<rparr> \<and>
   (\<exists>out. surge_radar \<lparr> attendance = 150000, temp = 120, humidity = 100, venue_type = Fan_Zone_Unbounded \<rparr> = Some out \<and>
           80 \<le> nedocsScoreCapped out \<and> 82 \<le> nedocsScoreCapped out \<and>
           3 \<le> edTransports out)"
proof -
  have v: "valid_input \<lparr> attendance = 150000, temp = 120, humidity = 100, venue_type = Fan_Zone_Unbounded \<rparr>"
    by (simp add: valid_input_def)
  from v capped_score_above_baseline [OF v] show ?thesis by (rule conjI)
qed




end
